theory Spec2Isabelle
  imports Main
begin

section \<open>Exceptions, listings and the log\<close>

text \<open>
  The exceptions the scanners can meet while pulling a listing or calling the platform:
  \<^verbatim>\<open>prawcore.Forbidden\<close> and any other subclass of \<^verbatim>\<open>Exception\<close>.
\<close>

datatype error = Forbidden | OtherException

text \<open>
  A listing is pulled lazily and may raise while it is pulled: it is the items it yields,
  followed either by exhaustion (\<open>None\<close>) or by the exception it raises (\<open>Some e\<close>).
\<close>

type_synonym 'a listing = "'a list \<times> error option"

text \<open>
  A log record keeps the level, the message and the item handed to \<^verbatim>\<open>PrefixLogger\<close>
  (\<open>None\<close> for the module logger, which has no prefix). The prefix itself is rendered from
  the item and the clock and is not expanded here.
\<close>

datatype level = Info | Warning | Error | Exception

type_synonym 'a log_entry = "level \<times> string \<times> 'a option"

subsection \<open>\<^verbatim>\<open>utils.plural\<close> and the string helpers it needs\<close>

definition digit :: "nat \<Rightarrow> char" where
  "digit n = ''0123456789'' ! n"

fun str_nat :: "nat \<Rightarrow> string" where
  "str_nat n = (if n < 10 then [digit n] else str_nat (n div 10) @ [digit (n mod 10)])"

declare str_nat.simps [simp del]

text \<open>\<^verbatim>\<open>str(i)\<close> of an integer.\<close>

definition str_int :: "int \<Rightarrow> string" where
  "str_int i = (if i < 0 then ''-'' @ str_nat (nat (- i)) else str_nat (nat i))"

text \<open>\<^verbatim>\<open>sep.join(parts)\<close>.\<close>

fun join :: "string \<Rightarrow> string list \<Rightarrow> string" where
  "join sep [] = []"
| "join sep [x] = x"
| "join sep (x # y # ys) = x @ sep @ join sep (y # ys)"

text \<open>
  \<^verbatim>\<open>format(plural(v), format_spec)\<close>: the spec is split at the first bar, the plural form
  defaults to the singular form followed by \<open>s\<close>, and the singular form is used only for
  a value of absolute value one. The value is always a \<^verbatim>\<open>len(...)\<close> here.
\<close>

definition plural :: "nat \<Rightarrow> string \<Rightarrow> string" where
  "plural v format_spec =
     (let singular_form = takeWhile (\<lambda>c. c \<noteq> CHR ''|'') format_spec;
          plural_form = drop 1 (dropWhile (\<lambda>c. c \<noteq> CHR ''|'') format_spec);
          plural_form = (if plural_form \<noteq> [] then plural_form else singular_form @ ''s'')
      in if v \<noteq> 1 then str_nat v @ '' '' @ plural_form
         else str_nat v @ '' '' @ singular_form)"

section \<open>Checks (\<^verbatim>\<open>checks.py\<close>)\<close>

datatype ActionQualifier = Q_ANY | Q_ALL

text \<open>
  A \<^verbatim>\<open>Check\<close> wraps a function from an item to a verdict and a message, and carries a
  qualifier. Calling the check calls the function.
\<close>

record 'a Check =
  func :: "'a \<Rightarrow> bool \<times> string"
  qualifier :: ActionQualifier

text \<open>The verdict and the reason a check gives for an item.\<close>

definition matches :: "'a Check \<Rightarrow> 'a \<Rightarrow> bool" where
  "matches check item = fst (func check item)"

definition reason :: "'a Check \<Rightarrow> 'a \<Rightarrow> string" where
  "reason check item = snd (func check item)"

text \<open>
  The attributes of a queue item (a comment or a submission) that the scanner and the
  checks read. \<^verbatim>\<open>banned_by\<close> is absent, the constant \<^verbatim>\<open>True\<close>, or a moderator's name.
\<close>

datatype banned = NotBanned | BannedTrue | BannedBy string

record item =
  item_id :: string
  approved_by :: "string option"
  score :: int
  removed_by_category :: "string option"
  banned_by :: banned
  ban_note :: "string option"

text \<open>Python truthiness of an optional string: \<^verbatim>\<open>None\<close> and the empty string are falsy.\<close>

fun truthy :: "string option \<Rightarrow> bool" where
  "truthy None = False"
| "truthy (Some s) = (s \<noteq> [])"

text \<open>\<^verbatim>\<open>str(x)\<close> of an optional string, as an f-string renders it.\<close>

fun str_opt :: "string option \<Rightarrow> string" where
  "str_opt None = ''None''"
| "str_opt (Some s) = s"

text \<open>
  \<^verbatim>\<open>check_removed_by_automated_spam()\<close>. The colouring function \<^verbatim>\<open>click.style\<close> belongs
  to a library outside the repository and is a parameter: \<open>style text fg\<close>.
\<close>

definition check_removed_by_automated_spam :: "(string \<Rightarrow> string \<Rightarrow> string) \<Rightarrow> item Check" where
  "check_removed_by_automated_spam style =
     \<lparr>func = (\<lambda>item.
        let results = [removed_by_category item = Some ''reddit''];
            results = (if banned_by item = BannedTrue
                       then results @ [ban_note item = Some ''spam''] else results);
            result = list_ex id results;
            message = (if result then style ''automated system marked it as spam'' ''red''
                       else [])
        in (result, message)),
      qualifier = Q_ANY\<rparr>"

text \<open>\<^verbatim>\<open>check_score(min_score)\<close>, with the default qualifier.\<close>

definition check_score :: "(string \<Rightarrow> string \<Rightarrow> string) \<Rightarrow> int \<Rightarrow> item Check" where
  "check_score style min_score =
     \<lparr>func = (\<lambda>item.
        let result = score item < min_score;
            message = (if result
                       then style (str_int (score item)) ''red'' @ '' '' @ style ''<'' ''yellow'' @
                            '' '' @ style (str_int min_score) ''cyan''
                       else [])
        in (result, message)),
      qualifier = Q_ALL\<rparr>"

section \<open>The item-queue scanner (\<^verbatim>\<open>managers/modqueue.py\<close>)\<close>

text \<open>The remote actions a scanner issues on an item, in the order they are attempted.\<close>

datatype action = Remove item | Lock item | Approve item

text \<open>
  The scanner object. \<open>logged\<close> and \<open>issued\<close> are the effects it has had on the log and on
  the platform; they are not attributes of the Python object.
\<close>

record modqueue =
  checks :: "item Check list"
  items_to_reapprove :: "item list"
  items_to_remove :: "item list"
  listing :: "item listing"
  reapprove :: bool
  subreddit :: string
  logged :: "item log_entry list"
  issued :: "action list"

text \<open>\<^verbatim>\<open>Modqueue.__init__\<close>: both buckets start empty.\<close>

definition Modqueue :: "string \<Rightarrow> item listing \<Rightarrow> item Check list \<Rightarrow> bool \<Rightarrow> modqueue" where
  "Modqueue sub lst cs reapprove_previously_approved =
     \<lparr>checks = cs, items_to_reapprove = [], items_to_remove = [], listing = lst,
      reapprove = reapprove_previously_approved, subreddit = sub, logged = [], issued = []\<rparr>"

text \<open>
  The state of the loop over the checks for one item: the local variables \<^verbatim>\<open>remove\<close> and
  \<^verbatim>\<open>messages\<close>, the scanner, and (as call instrumentation) the checks called so far.
\<close>

record item_scan =
  remove :: bool
  messages :: "string list"
  invoked :: "item Check list"
  mq :: modqueue

text \<open>
  \<^verbatim>\<open>for check in self.checks:\<close> for one item. Both \<^verbatim>\<open>break\<close> statements end the
  recursion; the guard for previously approved items sits inside the loop body.
\<close>

fun for_checks :: "item \<Rightarrow> item Check list \<Rightarrow> item_scan \<Rightarrow> item_scan" where
  "for_checks item [] s = s"
| "for_checks item (check # rest) s =
     (if reapprove (mq s) \<and> truthy (approved_by item) then
        s\<lparr>mq := (mq s)
               \<lparr>logged := logged (mq s) @
                   [(Info, ''Previously approved by u/'' @ str_opt (approved_by item), Some item)],
                items_to_reapprove := items_to_reapprove (mq s) @ [item]\<rparr>,
          remove := False\<rparr>
      else
        let (result, message) = func check item;
            s = s\<lparr>invoked := invoked s @ [check]\<rparr>;
            s = (if result then s\<lparr>messages := messages s @ [message]\<rparr> else s);
            s = (if qualifier check = Q_ALL then s\<lparr>remove := (remove s \<and> result)\<rparr> else s)
        in if result \<and> qualifier check = Q_ANY then s\<lparr>remove := result\<rparr>
           else for_checks item rest s)"

text \<open>
  The loop over the checks for one item, entered with \<^verbatim>\<open>remove = True\<close> and
  \<^verbatim>\<open>messages = []\<close>.
\<close>

definition evaluate :: "modqueue \<Rightarrow> item \<Rightarrow> item_scan" where
  "evaluate m item =
     for_checks item (checks m) \<lparr>remove = True, messages = [], invoked = [], mq = m\<rparr>"

text \<open>The body of \<^verbatim>\<open>for item in self.listing:\<close>.\<close>

definition scan_item :: "modqueue \<Rightarrow> item \<Rightarrow> modqueue" where
  "scan_item m item =
     (let s = evaluate m item
      in if remove s then
           (mq s)\<lparr>logged := logged (mq s) @ [(Info, join '' | '' (messages s), Some item)],
                  items_to_remove := items_to_remove (mq s) @ [item]\<rparr>
         else mq s)"

fun for_items :: "item list \<Rightarrow> modqueue \<Rightarrow> modqueue" where
  "for_items [] m = m"
| "for_items (item # rest) m = for_items rest (scan_item m item)"

text \<open>
  The body of the \<^verbatim>\<open>try\<close> block of \<^verbatim>\<open>Modqueue.scan\<close>: the items the listing yields are
  classified one by one; if the listing then raises, the exception leaves the block.
\<close>

definition scan_try :: "modqueue \<Rightarrow> (error + nat \<times> nat) \<times> modqueue" where
  "scan_try m =
     (let m = for_items (fst (listing m)) m
      in case snd (listing m) of
           Some e \<Rightarrow> (Inl e, m)
         | None \<Rightarrow>
             let m = m\<lparr>logged := logged m @
                        [(Info, ''r/'' @ subreddit m @ '' | Found '' @
                            plural (length (items_to_remove m)) ''item'' @ '' to remove'', None)]\<rparr>;
                 m = m\<lparr>logged := logged m @
                        [(Info, ''r/'' @ subreddit m @ '' | Found '' @
                            plural (length (items_to_reapprove m)) ''item'' @ '' to re-approve'', None)]\<rparr>
             in (Inr (length (items_to_remove m), length (items_to_reapprove m)), m))"

text \<open>
  \<^verbatim>\<open>Modqueue.scan\<close> with its two handlers. \<open>Inl\<close> in the result would be an exception
  reaching the caller.
\<close>

definition scan :: "modqueue \<Rightarrow> (error + nat \<times> nat) \<times> modqueue" where
  "scan m =
     (case scan_try m of
        (Inr counts, m') \<Rightarrow> (Inr counts, m')
      | (Inl Forbidden, m') \<Rightarrow>
          (Inr (0, 0),
           m'\<lparr>logged := logged m' @
                 [(Error, ''r/'' @ subreddit m' @ '' | Forbidden to scan modqueue'', None)]\<rparr>)
      | (Inl OtherException, m') \<Rightarrow>
          (Inr (0, 0),
           m'\<lparr>logged := logged m' @
                 [(Exception, ''r/'' @ subreddit m' @ '' | Error scanning modqueue'', None)]\<rparr>))"

text \<open>
  The bulk actions. \<open>remote a\<close> is what the platform answers to action \<open>a\<close>: \<open>None\<close> when
  it succeeds, \<open>Some e\<close> when the call raises \<open>e\<close>. When a lock fails, the call
  \<^verbatim>\<open>log.exception("Failed to lock", e)\<close> hands the exception over as a format argument of a
  message without a placeholder: the logging library cannot render the record and writes
  none, so the only record of the failure is the one of the prefix logger.
\<close>

fun reapprove_loop :: "(action \<Rightarrow> error option) \<Rightarrow> item list \<Rightarrow> modqueue \<Rightarrow> (error + unit) \<times> modqueue" where
  "reapprove_loop remote [] m = (Inr (), m)"
| "reapprove_loop remote (item # rest) m =
     (let m = m\<lparr>issued := issued m @ [Approve item]\<rparr>
      in case remote (Approve item) of
           Some e \<Rightarrow> (Inl e, m)
         | None \<Rightarrow>
             reapprove_loop remote rest
               (m\<lparr>logged := logged m @ [(Info, ''Re-approved'', Some item)]\<rparr>))"

definition reapprove_found :: "(action \<Rightarrow> error option) \<Rightarrow> modqueue \<Rightarrow> (error + unit) \<times> modqueue" where
  "reapprove_found remote m = reapprove_loop remote (items_to_reapprove m) m"

fun remove_loop :: "(action \<Rightarrow> error option) \<Rightarrow> item list \<Rightarrow> modqueue \<Rightarrow> (error + unit) \<times> modqueue" where
  "remove_loop remote [] m = (Inr (), m)"
| "remove_loop remote (item # rest) m =
     (let m = m\<lparr>issued := issued m @ [Remove item]\<rparr>
      in case remote (Remove item) of
           Some e \<Rightarrow> (Inl e, m)
         | None \<Rightarrow>
             let m = m\<lparr>logged := logged m @ [(Info, ''Removed'', Some item)]\<rparr>;
                 m = m\<lparr>issued := issued m @ [Lock item]\<rparr>
             in (case remote (Lock item) of
                   Some e \<Rightarrow>
                     remove_loop remote rest
                       (m\<lparr>logged := logged m @ [(Error, ''Failed to lock'', Some item)]\<rparr>)
                 | None \<Rightarrow>
                     remove_loop remote rest
                       (m\<lparr>logged := logged m @ [(Info, ''Locked'', Some item)]\<rparr>)))"

definition remove_found :: "(action \<Rightarrow> error option) \<Rightarrow> modqueue \<Rightarrow> (error + unit) \<times> modqueue" where
  "remove_found remote m = remove_loop remote (items_to_remove m) m"

section \<open>The conversation scanner (\<^verbatim>\<open>managers/modmail.py\<close>)\<close>

text \<open>
  The attributes of a modmail conversation that the scanner and its checks read. The
  platform library compares conversations by identity of the conversation; here a
  conversation is the value of its attributes, so the same conversation listed under two
  states is the same value.
\<close>

record conversation =
  conv_id :: string
  owner :: string
  last_mod_update :: "string option"
  last_user_update :: "string option"
  is_internal :: bool

text \<open>\<^verbatim>\<open>check_unanswered(ignore_unanswered)\<close>, with the default qualifier.\<close>

definition check_unanswered :: "(string \<Rightarrow> string \<Rightarrow> string) \<Rightarrow> bool \<Rightarrow> conversation Check" where
  "check_unanswered style ignore_unanswered =
     \<lparr>func = (\<lambda>item.
        if ignore_unanswered then (False, [])
        else
          let result = (last_mod_update item = None);
              message = (if result then style ''unanswered'' ''red'' else [])
          in (result, message)),
      qualifier = Q_ALL\<rparr>"

text \<open>
  The scanner object: \<^verbatim>\<open>items_to_archive\<close> is a Python set. The listing is a function
  that is called once per state. \<open>mm_logged\<close> is the effect on the log.
\<close>

record modmail =
  mm_checks :: "conversation Check list"
  items_to_archive :: "conversation set"
  mm_listing :: "string \<Rightarrow> conversation listing"
  states :: "string list"
  mm_logged :: "conversation log_entry list"

text \<open>\<^verbatim>\<open>Modmail.__init__\<close>: the archive set starts empty.\<close>

definition Modmail :: "(string \<Rightarrow> conversation listing) \<Rightarrow> conversation Check list \<Rightarrow> string list \<Rightarrow> modmail" where
  "Modmail lst cs sts =
     \<lparr>mm_checks = cs, items_to_archive = {}, mm_listing = lst, states = sts, mm_logged = []\<rparr>"

text \<open>
  \<^verbatim>\<open>aggregated[owner][state] += 1\<close> on a \<^verbatim>\<open>defaultdict\<close> of \<^verbatim>\<open>defaultdict(int)\<close>, kept in
  insertion order.
\<close>

fun incr :: "string \<Rightarrow> (string \<times> nat) list \<Rightarrow> (string \<times> nat) list" where
  "incr k [] = [(k, 1)]"
| "incr k ((k', n) # rest) = (if k = k' then (k', n + 1) # rest else (k', n) # incr k rest)"

fun incr_in :: "string \<Rightarrow> string \<Rightarrow> (string \<times> (string \<times> nat) list) list \<Rightarrow> (string \<times> (string \<times> nat) list) list" where
  "incr_in k1 k2 [] = [(k1, incr k2 [])]"
| "incr_in k1 k2 ((k', counts) # rest) =
     (if k1 = k' then (k', incr k2 counts) # rest else (k', counts) # incr_in k1 k2 rest)"

text \<open>
  \<^verbatim>\<open>for check in self.checks: ... break ... else: ...\<close>: the message of the first check
  that matches (the \<^verbatim>\<open>break\<close>), or \<open>None\<close> when the loop runs to its \<^verbatim>\<open>else\<close> branch.
\<close>

fun scan_checks :: "conversation \<Rightarrow> conversation Check list \<Rightarrow> string option" where
  "scan_checks conv [] = None"
| "scan_checks conv (check # rest) =
     (let (result, message) = func check conv
      in if result then Some message else scan_checks conv rest)"

text \<open>The state of the loops of \<^verbatim>\<open>Modmail.scan\<close>: the local dictionary and the scanner.\<close>

record mm_scan =
  aggregated :: "(string \<times> (string \<times> nat) list) list"
  mm :: modmail

text \<open>The body of \<^verbatim>\<open>for conversation in self.listing(state=state):\<close>.\<close>

definition scan_conversation :: "string \<Rightarrow> mm_scan \<Rightarrow> conversation \<Rightarrow> mm_scan" where
  "scan_conversation state s conv =
     (let m = mm s;
          m = (case scan_checks conv (mm_checks m) of
                 Some message \<Rightarrow> m\<lparr>mm_logged := mm_logged m @ [(Info, message, Some conv)]\<rparr>
               | None \<Rightarrow> m\<lparr>items_to_archive := insert conv (items_to_archive m)\<rparr>)
      in s\<lparr>mm := m, aggregated := incr_in (owner conv) state (aggregated s)\<rparr>)"

fun for_conversations :: "string \<Rightarrow> conversation list \<Rightarrow> mm_scan \<Rightarrow> mm_scan" where
  "for_conversations state [] s = s"
| "for_conversations state (conv # rest) s =
     for_conversations state rest (scan_conversation state s conv)"

text \<open>
  \<^verbatim>\<open>for state in self.states:\<close>. No handler surrounds the loops: an exception raised by
  a listing ends them and is returned with the state reached.
\<close>

fun for_states :: "string list \<Rightarrow> mm_scan \<Rightarrow> error option \<times> mm_scan" where
  "for_states [] s = (None, s)"
| "for_states (state # rest) s =
     (let lst = mm_listing (mm s) state;
          s = for_conversations state (fst lst) s
      in case snd lst of
           Some e \<Rightarrow> (Some e, s)
         | None \<Rightarrow> for_states rest s)"

text \<open>The log lines for the aggregated counts.\<close>

definition count_lines :: "(string \<times> (string \<times> nat) list) list \<Rightarrow> conversation log_entry list" where
  "count_lines agg =
     concat (map (\<lambda>(sub, counts).
        (Info, ''r/'' @ sub @ '':'', None) #
        map (\<lambda>(state, count). (Info, ''    '' @ state @ '': '' @ str_nat count, None)) counts) agg)"

text \<open>
  \<^verbatim>\<open>Modmail.scan\<close>. \<open>Inl\<close> in the result is an exception reaching the caller.
\<close>

definition modmail_scan :: "modmail \<Rightarrow> (error + nat) \<times> modmail" where
  "modmail_scan m =
     (case for_states (states m) \<lparr>aggregated = [], mm = m\<rparr> of
        (Some e, s) \<Rightarrow> (Inl e, mm s)
      | (None, s) \<Rightarrow>
          let m = mm s;
              m = m\<lparr>mm_logged := mm_logged m @
                     [(Info, ''Found '' @ plural (card (items_to_archive m)) ''conversation'' @
                         '' to archive'', None)]\<rparr>;
              m = m\<lparr>mm_logged := mm_logged m @ count_lines (aggregated s)\<rparr>
          in (Inr (card (items_to_archive m)), m))"

text \<open>The conversations a scan pulls before it ends or a listing raises, in order.\<close>

fun pulled :: "(string \<Rightarrow> conversation listing) \<Rightarrow> string list \<Rightarrow> conversation list" where
  "pulled lst [] = []"
| "pulled lst (state # rest) =
     fst (lst state) @ (case snd (lst state) of Some e \<Rightarrow> [] | None \<Rightarrow> pulled lst rest)"

section \<open>The activity ladder classifier (\<^verbatim>\<open>managers/inactivity.py\<close>)\<close>

text \<open>
  A moderator as the roster listing yields it; \<open>position\<close> is the attribute the scan sets
  on it. A subreddit; \<open>sub_position\<close> and \<open>sub_is_active\<close> are the attributes \<^verbatim>\<open>position\<close>
  and \<^verbatim>\<open>is_active\<close> the scan sets on it when it meets the self entry.
\<close>

record Redditor =
  name :: string
  is_active :: bool
  position :: "nat option"

record Subreddit =
  display_name :: string
  sub_position :: "nat option"
  sub_is_active :: "bool option"

text \<open>\<^verbatim>\<open>SubredditBucket\<close> (\<^verbatim>\<open>models/subreddit_bucket.py\<close>) and its \<^verbatim>\<open>__call__\<close>.\<close>

record SubredditBucket =
  bucket_name :: string
  bucket :: "(Subreddit \<times> Redditor list) list"

definition call :: "SubredditBucket \<Rightarrow> Subreddit \<Rightarrow> Redditor list \<Rightarrow> SubredditBucket" where
  "call b sub mods = b\<lparr>bucket := bucket b @ [(sub, mods)]\<rparr>"

text \<open>
  The buckets are class attributes of \<^verbatim>\<open>InactivityManager\<close>, shared by every instance and
  every scan: the registry maps each attribute name to its bucket.
\<close>

datatype bucket_attr =
    All_subreddits | Inactive | Active_top_mod | Top_active_mod | No_active_mods
  | Inactive_top_mod | Inactive_top_2 | Inactive_top_3 | Inactive_top_5 | Inactive_top_10
  | Active_inactive_above | Inactive_active_below | Only_one_active

type_synonym registry = "bucket_attr \<Rightarrow> SubredditBucket"

text \<open>The class body: every bucket is created empty, with its pretty name.\<close>

definition InactivityManager :: registry where
  "InactivityManager b =
     \<lparr>bucket_name =
        (case b of
           All_subreddits \<Rightarrow> ''All Subreddits''
         | Inactive \<Rightarrow> ''Inactive''
         | Active_top_mod \<Rightarrow> ''Top Mod and Active''
         | Top_active_mod \<Rightarrow> ''Highest Active Mod''
         | No_active_mods \<Rightarrow> ''Subreddits Where Nobody Is Active''
         | Inactive_top_mod \<Rightarrow> ''Inactive and Top Mod''
         | Inactive_top_2 \<Rightarrow> ''Inactive and In The Top 2''
         | Inactive_top_3 \<Rightarrow> ''Inactive and In The Top 3''
         | Inactive_top_5 \<Rightarrow> ''Inactive and In The Top 5''
         | Inactive_top_10 \<Rightarrow> ''Inactive and In The Top 10''
         | Active_inactive_above \<Rightarrow> ''Active with Inactive Above''
         | Inactive_active_below \<Rightarrow> ''Inactive with Active Below''
         | Only_one_active \<Rightarrow> ''Only One Active''),
      bucket = []\<rparr>"


definition contain_active :: "Redditor list \<Rightarrow> bool" where
  "contain_active moderators = list_ex (\<lambda>m. is_active m) moderators"

definition contain_all_inactive :: "Redditor list \<Rightarrow> bool" where
  "contain_all_inactive moderators = list_all (\<lambda>m. \<not> is_active m) moderators"

definition contain_inactive :: "Redditor list \<Rightarrow> bool" where
  "contain_inactive moderators = list_ex (\<lambda>m. \<not> is_active m) moderators"

text \<open>
  The local variables of the loop body of \<^verbatim>\<open>InactivityManager.scan\<close> for one subreddit;
  \<open>current\<close> is the subreddit object, whose attributes the walk sets.
\<close>

record walk =
  entire_sub_inactive :: bool
  above_me :: "Redditor list"
  below_me :: "Redditor list"
  my_position :: "nat option"
  im_active :: bool
  current :: Subreddit

text \<open>
  \<^verbatim>\<open>for position, moderator in enumerate(generator, 1):\<close>. The self entry sets
  \<^verbatim>\<open>my_position\<close> before the entry is filed, so it is filed under \<^verbatim>\<open>below_me\<close>.
\<close>

fun for_moderators :: "string \<Rightarrow> nat \<Rightarrow> Redditor list \<Rightarrow> walk \<Rightarrow> walk" where
  "for_moderators me pos [] w = w"
| "for_moderators me pos (m # rest) w =
     (let w = w\<lparr>entire_sub_inactive := (entire_sub_inactive w \<and> \<not> is_active m)\<rparr>;
          moderator = m\<lparr>position := Some pos\<rparr>;
          w = (if name moderator = me then
                 w\<lparr>my_position := Some pos,
                   im_active := is_active moderator,
                   current := (current w)\<lparr>sub_position := Some pos,
                                          sub_is_active := Some (is_active moderator)\<rparr>\<rparr>
               else w);
          w = (if my_position w = None then w\<lparr>above_me := above_me w @ [moderator]\<rparr>
               else w\<lparr>below_me := below_me w @ [moderator]\<rparr>)
      in for_moderators me (Suc pos) rest w)"

text \<open>A bucket attribute called with a subreddit and its mods.\<close>

definition fire :: "bucket_attr \<Rightarrow> Subreddit \<Rightarrow> Redditor list \<Rightarrow> registry \<Rightarrow> registry" where
  "fire b sub mods R = R(b := call (R b) sub mods)"

text \<open>\<^verbatim>\<open>if cond: self.b(sub, mods)\<close>.\<close>

definition if_fire :: "bool \<Rightarrow> bucket_attr \<Rightarrow> Subreddit \<Rightarrow> Redditor list \<Rightarrow> registry \<Rightarrow> registry" where
  "if_fire cond b sub mods R = (if cond then fire b sub mods R else R)"

text \<open>The \<^verbatim>\<open>match my_position, im_active:\<close> statement; no case matches other pairs.\<close>

definition ladder :: "walk \<Rightarrow> registry \<Rightarrow> registry" where
  "ladder w R =
     (let p = my_position w; a = im_active w; sub = current w;
          inactive_above = filter (\<lambda>m. \<not> is_active m) (above_me w)
      in if p = Some 1 \<and> a then fire Active_top_mod sub [] R
         else if p = Some 1 \<and> \<not> a then fire Inactive_top_mod sub inactive_above R
         else if p = Some 2 \<and> \<not> a then fire Inactive_top_2 sub inactive_above R
         else if p = Some 3 \<and> \<not> a then fire Inactive_top_3 sub inactive_above R
         else if (p = Some 4 \<or> p = Some 5) \<and> \<not> a then fire Inactive_top_5 sub inactive_above R
         else if (p = Some 6 \<or> p = Some 7 \<or> p = Some 8 \<or> p = Some 9 \<or> p = Some 10) \<and> \<not> a
           then fire Inactive_top_10 sub inactive_above R
         else R)"

text \<open>The statements after the roster walk, in their order.\<close>

definition classify :: "walk \<Rightarrow> registry \<Rightarrow> registry" where
  "classify w R =
     (let sub = current w;
          R = fire All_subreddits sub [] R;
          R = if_fire (entire_sub_inactive w) No_active_mods sub [] R;
          R = ladder w R;
          R = if_fire (\<not> im_active w) Inactive sub [] R;
          R = if_fire (im_active w \<and> contain_inactive (above_me w)) Active_inactive_above sub
                (filter (\<lambda>m. \<not> is_active m) (above_me w)) R;
          R = if_fire (im_active w \<and> contain_all_inactive (above_me w)) Top_active_mod sub
                (filter (\<lambda>m. \<not> is_active m) (above_me w)) R;
          R = if_fire (im_active w \<and> contain_all_inactive (above_me w) \<and>
                       contain_all_inactive (below_me w)) Only_one_active sub
                (filter (\<lambda>m. \<not> is_active m) (above_me w @ below_me w)) R;
          R = if_fire (\<not> im_active w \<and> contain_active (below_me w)) Inactive_active_below sub
                (filter (\<lambda>m. is_active m) (below_me w)) R
      in R)"

text \<open>
  The body of \<^verbatim>\<open>for subreddit in self.subreddits:\<close>. \<open>moderators\<close> is the platform's
  roster listing for a subreddit name. A listing that raises skips the subreddit; the
  attributes the walk has set on the subreddit object stay. The log calls of this
  manager touch no bucket and are left out.
\<close>

definition scan_subreddit :: "string \<Rightarrow> (string \<Rightarrow> Redditor listing) \<Rightarrow> Subreddit \<Rightarrow> registry \<Rightarrow> Subreddit \<times> registry" where
  "scan_subreddit me moderators sub R =
     (let generator = moderators (display_name sub);
          w = for_moderators me 1 (fst generator)
                \<lparr>entire_sub_inactive = True, above_me = [], below_me = [],
                 my_position = None, im_active = False, current = sub\<rparr>
      in case snd generator of
           Some e \<Rightarrow> (current w, R)
         | None \<Rightarrow> (current w, classify w R))"

text \<open>
  \<^verbatim>\<open>InactivityManager.scan\<close>: the subreddit objects as the scan leaves them, and the
  registry.
\<close>

fun inactivity_scan :: "string \<Rightarrow> (string \<Rightarrow> Redditor listing) \<Rightarrow> Subreddit list \<Rightarrow> registry \<Rightarrow> Subreddit list \<times> registry" where
  "inactivity_scan me moderators [] R = ([], R)"
| "inactivity_scan me moderators (sub # rest) R =
     (let (sub', R) = scan_subreddit me moderators sub R;
          (rest', R) = inactivity_scan me moderators rest R
      in (sub' # rest', R))"

section \<open>Example inputs\<close>

text \<open>A colouring function that leaves the text as it is.\<close>

definition plain :: "string \<Rightarrow> string \<Rightarrow> string" where
  "plain text fg = text"

text \<open>
  Two queue items with score 5 that the platform's spam filter removed; the second one
  bears a prior approval.
\<close>

definition spam_item :: item where
  "spam_item = \<lparr>item_id = ''t3_a'', approved_by = None, score = 5,
                 removed_by_category = Some ''reddit'', banned_by = NotBanned, ban_note = None\<rparr>"

definition approved_item :: item where
  "approved_item = \<lparr>item_id = ''t3_b'', approved_by = Some ''mod'', score = 5,
                 removed_by_category = Some ''reddit'', banned_by = NotBanned, ban_note = None\<rparr>"

text \<open>
  Scanners over a listing that yields \<open>its\<close> and then ends or raises \<open>fail\<close>: with the
  score check and the spam check of the command line, with the score check alone, and
  with no check.
\<close>

definition modqueue_cli :: "item list \<Rightarrow> error option \<Rightarrow> bool \<Rightarrow> modqueue" where
  "modqueue_cli its fail reapp =
     Modqueue ''sub'' (its, fail) [check_score plain 10, check_removed_by_automated_spam plain] reapp"

definition modqueue_score :: "item list \<Rightarrow> error option \<Rightarrow> bool \<Rightarrow> modqueue" where
  "modqueue_score its fail reapp = Modqueue ''sub'' (its, fail) [check_score plain 10] reapp"

definition modqueue_no_checks :: "item list \<Rightarrow> error option \<Rightarrow> bool \<Rightarrow> modqueue" where
  "modqueue_no_checks its fail reapp = Modqueue ''sub'' (its, fail) [] reapp"

text \<open>
  Two conversations, one that a moderator has answered and one that no moderator has
  answered, a listing that yields both under every state, and one that is denied.
\<close>

definition answered_conversation :: conversation where
  "answered_conversation =
     \<lparr>conv_id = ''c1'', owner = ''sub'', last_mod_update = Some ''2024-01-01T00:00:00'',
      last_user_update = None, is_internal = False\<rparr>"

definition unanswered_conversation :: conversation where
  "unanswered_conversation =
     \<lparr>conv_id = ''c2'', owner = ''sub'', last_mod_update = None,
      last_user_update = Some ''2024-01-01T00:00:00'', is_internal = False\<rparr>"

definition same_listing :: "string \<Rightarrow> conversation listing" where
  "same_listing state = ([answered_conversation, unanswered_conversation], None)"

definition forbidden_listing :: "string \<Rightarrow> conversation listing" where
  "forbidden_listing state = ([], Some Forbidden)"

text \<open>
  A subreddit whose roster has one entry, the active self subject \<open>me\<close>, and the
  platform that lists this roster for every subreddit.
\<close>

definition example_subreddit :: Subreddit where
  "example_subreddit = \<lparr>display_name = ''sub'', sub_position = None, sub_is_active = None\<rparr>"

definition lone_roster :: "string \<Rightarrow> Redditor listing" where
  "lone_roster sub_name = ([\<lparr>name = ''me'', is_active = True, position = None\<rparr>], None)"

section \<open>Vocabulary of the proofs\<close>

text \<open>
  A registry transformer appends when it leaves every bucket's entries in place and adds
  entries that do not depend on the registry it starts from.
\<close>

definition appends :: "(registry \<Rightarrow> registry) \<Rightarrow> bool" where
  "appends f = (\<exists>d. \<forall>R b. bucket (f R b) = bucket (R b) @ d b)"

text \<open>
  The attributes the roster walk sets on the subreddit object, as a function of the
  object alone, and the local variables at the start of the walk.
\<close>

fun stamp :: "string \<Rightarrow> nat \<Rightarrow> Redditor list \<Rightarrow> Subreddit \<Rightarrow> Subreddit" where
  "stamp me pos [] s = s"
| "stamp me pos (m # rest) s =
     stamp me (Suc pos) rest
       (if name m = me then s\<lparr>sub_position := Some pos, sub_is_active := Some (is_active m)\<rparr>
        else s)"

definition init_walk :: "Subreddit \<Rightarrow> walk" where
  "init_walk sub = \<lparr>entire_sub_inactive = True, above_me = [], below_me = [],
                    my_position = None, im_active = False, current = sub\<rparr>"

section \<open>Properties of the item-queue scanner\<close>

subsection \<open>The loop over the checks\<close>

lemma fc_frame:
  "checks (mq (for_checks it cs s)) = checks (mq s) \<and>
   reapprove (mq (for_checks it cs s)) = reapprove (mq s) \<and>
   listing (mq (for_checks it cs s)) = listing (mq s) \<and>
   subreddit (mq (for_checks it cs s)) = subreddit (mq s) \<and>
   issued (mq (for_checks it cs s)) = issued (mq s) \<and>
   items_to_remove (mq (for_checks it cs s)) = items_to_remove (mq s)"
  by (induction cs arbitrary: s) (simp_all add: Let_def split: prod.splits)

lemma fc_nobypass_mq:
  "\<not> (reapprove (mq s) \<and> truthy (approved_by it)) \<Longrightarrow> mq (for_checks it cs s) = mq s"
  by (induction cs arbitrary: s) (auto simp add: Let_def split: prod.splits)

lemma fc_bypass:
  "reapprove (mq s) \<Longrightarrow> truthy (approved_by it) \<Longrightarrow> cs \<noteq> [] \<Longrightarrow>
   for_checks it cs s =
     s\<lparr>mq := (mq s)
            \<lparr>logged := logged (mq s) @
                [(Info, ''Previously approved by u/'' @ str_opt (approved_by it), Some it)],
             items_to_reapprove := items_to_reapprove (mq s) @ [it]\<rparr>,
       remove := False\<rparr>"
  by (cases cs) simp_all

lemma fc_any_head:
  "\<not> (reapprove (mq s) \<and> truthy (approved_by it)) \<Longrightarrow> qualifier c = Q_ANY \<Longrightarrow> matches c it \<Longrightarrow>
   for_checks it (c # post) s =
     s\<lparr>invoked := invoked s @ [c], messages := messages s @ [reason c it], remove := True\<rparr>"
  by (auto simp add: Let_def matches_def reason_def split: prod.splits)

lemma fc_prefix:
  "\<not> (reapprove (mq s) \<and> truthy (approved_by it)) \<Longrightarrow>
   list_all (\<lambda>x. \<not> (qualifier x = Q_ANY \<and> matches x it)) pre \<Longrightarrow>
   for_checks it (pre @ rest) s =
     for_checks it rest
       (s\<lparr>invoked := invoked s @ pre,
          messages := messages s @ map (\<lambda>x. reason x it) (filter (\<lambda>x. matches x it) pre),
          remove := (remove s \<and> list_all (\<lambda>x. qualifier x = Q_ALL \<longrightarrow> matches x it) pre)\<rparr>)"
proof (induction pre arbitrary: s)
  case Nil
  then show ?case by simp
next
  case (Cons c pre)
  then show ?case
    by (auto simp add: Let_def matches_def reason_def split: prod.splits)
qed


lemma fc_cong:
  "reapprove (mq s') = reapprove (mq s) \<Longrightarrow> remove s' = remove s \<Longrightarrow>
   messages s' = messages s \<Longrightarrow> invoked s' = invoked s \<Longrightarrow>
   remove (for_checks it cs s') = remove (for_checks it cs s) \<and>
   messages (for_checks it cs s') = messages (for_checks it cs s) \<and>
   invoked (for_checks it cs s') = invoked (for_checks it cs s)"
proof (induction cs arbitrary: s s')
  case Nil
  then show ?case by simp
next
  case (Cons c cs)
  show ?case
  proof (cases "reapprove (mq s) \<and> truthy (approved_by it)")
    case True
    with Cons.prems show ?thesis by simp
  next
    case False
    obtain r msg where f: "func c it = (r, msg)" by (cases "func c it")
    let ?upd = "\<lambda>t. let t = t\<lparr>invoked := invoked t @ [c]\<rparr>;
                     t = (if r then t\<lparr>messages := messages t @ [msg]\<rparr> else t)
                 in (if qualifier c = Q_ALL then t\<lparr>remove := (remove t \<and> r)\<rparr> else t)"
    have pre: "reapprove (mq (?upd s')) = reapprove (mq (?upd s))"
      "remove (?upd s') = remove (?upd s)" "messages (?upd s') = messages (?upd s)"
      "invoked (?upd s') = invoked (?upd s)"
      using Cons.prems by (simp_all add: Let_def)
    show ?thesis
    proof (cases "r \<and> qualifier c = Q_ANY")
      case True
      with False f Cons.prems show ?thesis by (simp add: Let_def)
    next
      case stop: False
      have "for_checks it (c # cs) s = for_checks it cs (?upd s)"
        using False f stop by (auto simp add: Let_def)
      moreover have "for_checks it (c # cs) s' = for_checks it cs (?upd s')"
        using False f stop Cons.prems by (auto simp add: Let_def)
      ultimately show ?thesis using Cons.IH [OF pre] by simp
    qed
  qed
qed

lemma evaluate_cong:
  "checks m' = checks m \<Longrightarrow> reapprove m' = reapprove m \<Longrightarrow>
   remove (evaluate m' it) = remove (evaluate m it) \<and>
   messages (evaluate m' it) = messages (evaluate m it) \<and>
   invoked (evaluate m' it) = invoked (evaluate m it)"
  using fc_cong [of "\<lparr>remove = True, messages = [], invoked = [], mq = m'\<rparr>"
      "\<lparr>remove = True, messages = [], invoked = [], mq = m\<rparr>" it "checks m"]
  by (simp add: evaluate_def)

lemma fc_reapprove_bucket:
  "items_to_reapprove (mq (for_checks it cs s)) =
     items_to_reapprove (mq s) @
       (if reapprove (mq s) \<and> truthy (approved_by it) \<and> cs \<noteq> [] then [it] else [])"
proof (cases "reapprove (mq s) \<and> truthy (approved_by it)")
  case True
  then show ?thesis by (cases cs) simp_all
next
  case False
  then show ?thesis using fc_nobypass_mq [of s it cs] by auto
qed

lemma scan_item_frame:
  "checks (scan_item m it) = checks m \<and> reapprove (scan_item m it) = reapprove m \<and>
   listing (scan_item m it) = listing m \<and> subreddit (scan_item m it) = subreddit m \<and>
   issued (scan_item m it) = issued m"
  using fc_frame [of it "checks m" "\<lparr>remove = True, messages = [], invoked = [], mq = m\<rparr>"]
  by (simp add: scan_item_def evaluate_def Let_def)

lemma scan_item_remove:
  "items_to_remove (scan_item m it) =
     items_to_remove m @ (if remove (evaluate m it) then [it] else [])"
  using fc_frame [of it "checks m" "\<lparr>remove = True, messages = [], invoked = [], mq = m\<rparr>"]
  by (simp add: scan_item_def evaluate_def Let_def)

lemma scan_item_reapprove:
  "items_to_reapprove (scan_item m it) =
     items_to_reapprove m @
       (if reapprove m \<and> truthy (approved_by it) \<and> checks m \<noteq> [] then [it] else [])"
  using fc_reapprove_bucket [of it "checks m" "\<lparr>remove = True, messages = [], invoked = [], mq = m\<rparr>"]
  by (simp add: scan_item_def evaluate_def Let_def)

lemma for_items_frame:
  "checks (for_items its m) = checks m \<and> reapprove (for_items its m) = reapprove m \<and>
   listing (for_items its m) = listing m \<and> subreddit (for_items its m) = subreddit m \<and>
   issued (for_items its m) = issued m"
  by (induction its arbitrary: m) (simp_all add: scan_item_frame)

lemma for_items_remove:
  "items_to_remove (for_items its m) =
     items_to_remove m @ filter (\<lambda>it. remove (evaluate m it)) its"
proof (induction its arbitrary: m)
  case Nil
  then show ?case by simp
next
  case (Cons x its)
  have "remove (evaluate (scan_item m x) it) = remove (evaluate m it)" for it
    using evaluate_cong [of "scan_item m x" m it] by (simp add: scan_item_frame)
  then show ?case by (simp add: Cons.IH scan_item_remove)
qed

lemma for_items_reapprove:
  "items_to_reapprove (for_items its m) =
     items_to_reapprove m @
       filter (\<lambda>it. reapprove m \<and> truthy (approved_by it) \<and> checks m \<noteq> []) its"
  by (induction its arbitrary: m) (simp_all add: scan_item_reapprove scan_item_frame)

lemma scan_buckets:
  "items_to_remove (snd (scan m)) =
     items_to_remove m @ filter (\<lambda>it. remove (evaluate m it)) (fst (listing m)) \<and>
   items_to_reapprove (snd (scan m)) =
     items_to_reapprove m @
       filter (\<lambda>it. reapprove m \<and> truthy (approved_by it) \<and> checks m \<noteq> []) (fst (listing m)) \<and>
   issued (snd (scan m)) = issued m"
  by (simp add: scan_def scan_try_def Let_def for_items_remove for_items_reapprove
      for_items_frame split: option.splits error.splits)

lemma scan_result:
  "fst (scan m) =
     (case snd (listing m) of
        None \<Rightarrow> Inr (length (items_to_remove (snd (scan m))),
                      length (items_to_reapprove (snd (scan m))))
      | Some e \<Rightarrow> Inr (0, 0))"
  by (simp add: scan_def scan_try_def Let_def for_items_frame split: option.splits error.splits)

lemma remove_loop_issued:
  "issued (snd (remove_loop (\<lambda>a. None) its m)) =
     issued m @ concat (map (\<lambda>i. [Remove i, Lock i]) its)"
  by (induction its arbitrary: m) (simp_all add: Let_def)

lemma reapprove_loop_issued:
  "issued (snd (reapprove_loop (\<lambda>a. None) its m)) = issued m @ map Approve its"
  by (induction its arbitrary: m) (simp_all add: Let_def)

lemma reapprove_loop_only_approves:
  "\<exists>k. issued (snd (reapprove_loop remote its m)) = issued m @ map Approve (take k its)"
proof (induction its arbitrary: m)
  case Nil
  then show ?case by simp
next
  case (Cons i its)
  show ?case
  proof (cases "remote (Approve i)")
    case None
    from Cons.IH [of "m\<lparr>issued := issued m @ [Approve i],
        logged := logged m @ [(Info, ''Re-approved'', Some i)]\<rparr>"]
    obtain k where "issued (snd (reapprove_loop remote its
        (m\<lparr>issued := issued m @ [Approve i],
           logged := logged m @ [(Info, ''Re-approved'', Some i)]\<rparr>))) =
        (issued m @ [Approve i]) @ map Approve (take k its)" by auto
    with None have "issued (snd (reapprove_loop remote (i # its) m)) =
        issued m @ map Approve (take (Suc k) (i # its))" by (simp add: Let_def)
    then show ?thesis by blast
  next
    case (Some e)
    then have "issued (snd (reapprove_loop remote (i # its) m)) =
        issued m @ map Approve (take 1 (i # its))" by (simp add: Let_def)
    then show ?thesis by blast
  qed
qed

lemma evaluate_any:
  assumes nb: "\<not> (reapprove m \<and> truthy (approved_by item))"
    and split: "checks m = pre @ c # post"
    and pre: "list_all (\<lambda>x. \<not> (qualifier x = Q_ANY \<and> matches x item)) pre"
    and c: "qualifier c = Q_ANY" "matches c item"
  shows "evaluate m item =
     \<lparr>remove = True,
      messages = map (\<lambda>x. reason x item) (filter (\<lambda>x. matches x item) pre) @ [reason c item],
      invoked = pre @ [c], mq = m\<rparr>"
proof -
  let ?s0 = "\<lparr>remove = True, messages = [], invoked = [], mq = m\<rparr>"
  have nb0: "\<not> (reapprove (mq ?s0) \<and> truthy (approved_by item))" using nb by simp
  let ?s1 = "?s0\<lparr>invoked := invoked ?s0 @ pre,
          messages := messages ?s0 @ map (\<lambda>x. reason x item) (filter (\<lambda>x. matches x item) pre),
          remove := (remove ?s0 \<and> list_all (\<lambda>x. qualifier x = Q_ALL \<longrightarrow> matches x item) pre)\<rparr>"
  have "evaluate m item = for_checks item (c # post) ?s1"
    unfolding evaluate_def split by (rule fc_prefix [OF nb0 pre])
  also have "\<dots> = ?s1\<lparr>invoked := invoked ?s1 @ [c], messages := messages ?s1 @ [reason c item],
       remove := True\<rparr>"
    by (rule fc_any_head) (use nb c in simp_all)
  finally show ?thesis by simp
qed

lemma evaluate_all:
  assumes nb: "\<not> (reapprove m \<and> truthy (approved_by item))"
    and all: "list_all (\<lambda>c. qualifier c = Q_ALL) (checks m)"
  shows "evaluate m item =
     \<lparr>remove = list_all (\<lambda>c. matches c item) (checks m),
      messages = map (\<lambda>x. reason x item) (filter (\<lambda>x. matches x item) (checks m)),
      invoked = checks m, mq = m\<rparr>"
proof -
  let ?s0 = "\<lparr>remove = True, messages = [], invoked = [], mq = m\<rparr>"
  have nb0: "\<not> (reapprove (mq ?s0) \<and> truthy (approved_by item))" using nb by simp
  have pre: "list_all (\<lambda>x. \<not> (qualifier x = Q_ANY \<and> matches x item)) (checks m)"
    using all by (simp add: list_all_iff)
  have eq: "list_all (\<lambda>x. qualifier x = Q_ALL \<longrightarrow> matches x item) (checks m) =
        list_all (\<lambda>c. matches c item) (checks m)"
    using all by (simp add: list_all_iff)
  have "evaluate m item = for_checks item (checks m @ []) ?s0"
    by (simp add: evaluate_def)
  also note fc_prefix [OF nb0 pre, of "[]"]
  finally show ?thesis by (simp add: eq)
qed

section \<open>Properties of the conversation scanner\<close>

lemma scan_checks_None: "(scan_checks c cs = None) = (\<not> list_ex (\<lambda>k. matches k c) cs)"
  by (induction cs) (simp_all add: matches_def Let_def split: prod.splits)

lemma scan_conversation_frame:
  "mm_checks (mm (scan_conversation st s c)) = mm_checks (mm s) \<and>
   mm_listing (mm (scan_conversation st s c)) = mm_listing (mm s) \<and>
   states (mm (scan_conversation st s c)) = states (mm s)"
  by (simp add: scan_conversation_def Let_def split: option.splits)

lemma scan_conversation_archive:
  "items_to_archive (mm (scan_conversation st s c)) =
     items_to_archive (mm s) \<union> (if scan_checks c (mm_checks (mm s)) = None then {c} else {})"
  by (simp add: scan_conversation_def Let_def split: option.splits)

lemma for_conversations_frame:
  "mm_checks (mm (for_conversations st cs s)) = mm_checks (mm s) \<and>
   mm_listing (mm (for_conversations st cs s)) = mm_listing (mm s) \<and>
   states (mm (for_conversations st cs s)) = states (mm s)"
  by (induction cs arbitrary: s) (simp_all add: scan_conversation_frame)

lemma for_conversations_archive:
  "items_to_archive (mm (for_conversations st cs s)) =
     items_to_archive (mm s) \<union> {c \<in> set cs. scan_checks c (mm_checks (mm s)) = None}"
  by (induction cs arbitrary: s)
     (auto simp add: scan_conversation_frame scan_conversation_archive)

lemma for_states_frame:
  "mm_checks (mm (snd (for_states sts s))) = mm_checks (mm s) \<and>
   mm_listing (mm (snd (for_states sts s))) = mm_listing (mm s)"
  by (induction sts arbitrary: s)
     (simp_all add: Let_def for_conversations_frame split: option.splits)

lemma for_states_archive:
  "items_to_archive (mm (snd (for_states sts s))) =
     items_to_archive (mm s) \<union>
       {c \<in> set (pulled (mm_listing (mm s)) sts). scan_checks c (mm_checks (mm s)) = None}"
proof (induction sts arbitrary: s)
  case Nil
  then show ?case by simp
next
  case (Cons st sts)
  show ?case
    by (cases "snd (mm_listing (mm s) st)")
       (auto simp add: Let_def Cons.IH for_conversations_frame for_conversations_archive)
qed

lemma modmail_scan_archive:
  "items_to_archive (snd (modmail_scan m)) =
     items_to_archive m \<union>
       {c \<in> set (pulled (mm_listing m) (states m)). scan_checks c (mm_checks m) = None}"
proof -
  obtain r s where fs: "for_states (states m) \<lparr>aggregated = [], mm = m\<rparr> = (r, s)"
    by (cases "for_states (states m) \<lparr>aggregated = [], mm = m\<rparr>")
  have "items_to_archive (mm s) =
     items_to_archive m \<union>
       {c \<in> set (pulled (mm_listing m) (states m)). scan_checks c (mm_checks m) = None}"
    using for_states_archive [of "states m" "\<lparr>aggregated = [], mm = m\<rparr>"] fs by simp
  then show ?thesis
    by (cases r) (simp_all add: modmail_scan_def fs Let_def)
qed

lemma modmail_scan_count:
  "fst (modmail_scan m) = Inr n \<Longrightarrow> n = card (items_to_archive (snd (modmail_scan m)))"
  by (auto simp add: modmail_scan_def Let_def split: prod.splits option.splits)

lemma for_states_raises:
  "fst (for_states sts s) = 
     (case List.find (\<lambda>st. snd (mm_listing (mm s) st) \<noteq> None) sts of
        None \<Rightarrow> None | Some st \<Rightarrow> snd (mm_listing (mm s) st))"
  by (induction sts arbitrary: s)
     (auto simp add: Let_def for_conversations_frame split: option.splits)

text \<open>When no listing raises, the scan pulls what every state lists, state after state.\<close>

lemma pulled_no_failure:
  "list_all (\<lambda>st. snd (lst st) = None) sts \<Longrightarrow>
   pulled lst sts = concat (map (\<lambda>st. fst (lst st)) sts)"
  by (induction sts) simp_all

section \<open>Properties of the activity ladder classifier\<close>

lemma init_bucket: "bucket (InactivityManager b) = []"
  by (simp add: InactivityManager_def)

lemma appends_id: "appends (\<lambda>R. R)"
  unfolding appends_def by (rule exI [of _ "\<lambda>b. []"]) simp

lemma appends_fire:
  assumes "appends f"
  shows "appends (\<lambda>R. fire a s ms (f R))"
proof -
  from assms obtain d where d: "\<And>R b. bucket (f R b) = bucket (R b) @ d b"
    unfolding appends_def by blast
  show ?thesis
    unfolding appends_def
    by (rule exI [of _ "\<lambda>b. d b @ (if b = a then [(s, ms)] else [])"])
       (simp add: fire_def call_def d)
qed

lemma appends_if_fire:
  assumes "appends f"
  shows "appends (\<lambda>R. if_fire c a s ms (f R))"
proof (cases c)
  case True
  then show ?thesis using appends_fire [OF assms] by (simp add: if_fire_def)
next
  case False
  then show ?thesis using assms by (simp add: if_fire_def)
qed

lemma ladder_cases:
  "(\<forall>R. ladder w R = R) \<or> (\<exists>a s ms. \<forall>R. ladder w R = fire a s ms R)"
  unfolding ladder_def Let_def by (simp split: if_splits) blast

lemma appends_ladder:
  assumes "appends f"
  shows "appends (\<lambda>R. ladder w (f R))"
  using ladder_cases [of w]
proof (elim disjE exE)
  assume "\<forall>R. ladder w R = R"
  then show ?thesis using assms by simp
next
  fix a s ms
  assume "\<forall>R. ladder w R = fire a s ms R"
  then show ?thesis using appends_fire [OF assms] by simp
qed

lemma appends_classify: "appends (classify w)"
  unfolding classify_def Let_def
  by (intro appends_if_fire appends_ladder appends_fire appends_id)

lemma appends_comp:
  assumes "appends f" and "appends g"
  shows "appends (\<lambda>R. g (f R))"
proof -
  from assms obtain d e where d: "\<And>R b. bucket (f R b) = bucket (R b) @ d b"
    and e: "\<And>R b. bucket (g R b) = bucket (R b) @ e b"
    unfolding appends_def by blast
  show ?thesis
    unfolding appends_def by (rule exI [of _ "\<lambda>b. d b @ e b"]) (simp add: d e)
qed

lemma appends_from_init:
  assumes "appends f"
  shows "bucket (f R b) = bucket (R b) @ bucket (f InactivityManager b)"
proof -
  from assms obtain d where d: "\<And>R b. bucket (f R b) = bucket (R b) @ d b"
    unfolding appends_def by blast
  have "bucket (f InactivityManager b) = d b"
    by (simp add: d init_bucket)
  then show ?thesis by (simp add: d)
qed

lemma stamp_shape:
  "(\<forall>s. stamp me pos ms s = s) \<or>
   (\<exists>p a. \<forall>s. stamp me pos ms s = s\<lparr>sub_position := Some p, sub_is_active := Some a\<rparr>)"
proof (induction ms arbitrary: pos)
  case Nil
  then show ?case by simp
next
  case (Cons m ms)
  from Cons.IH [of "Suc pos"] show ?case
  proof
    assume same: "\<forall>s. stamp me (Suc pos) ms s = s"
    show ?thesis
    proof (cases "name m = me")
      case True
      with same have "\<forall>s. stamp me pos (m # ms) s =
          s\<lparr>sub_position := Some pos, sub_is_active := Some (is_active m)\<rparr>" by simp
      then show ?thesis by blast
    next
      case False
      with same show ?thesis by simp
    qed
  next
    assume "\<exists>p a. \<forall>s. stamp me (Suc pos) ms s = s\<lparr>sub_position := Some p, sub_is_active := Some a\<rparr>"
    then obtain p a where
      pa: "\<forall>s. stamp me (Suc pos) ms s = s\<lparr>sub_position := Some p, sub_is_active := Some a\<rparr>"
      by blast
    then have "\<forall>s. stamp me pos (m # ms) s = s\<lparr>sub_position := Some p, sub_is_active := Some a\<rparr>"
      by simp
    then show ?thesis by blast
  qed
qed

lemma stamp_idem: "stamp me pos ms (stamp me pos ms s) = stamp me pos ms s"
  using stamp_shape [of me pos ms] by (elim disjE exE) simp_all

lemma stamp_display_name: "display_name (stamp me pos ms s) = display_name s"
  by (induction ms arbitrary: pos s) simp_all

lemma walk_current:
  "for_moderators me pos ms (w\<lparr>current := s\<rparr>) =
     (for_moderators me pos ms w)\<lparr>current := stamp me pos ms s\<rparr>"
proof (induction ms arbitrary: pos w s)
  case Nil
  then show ?case by simp
next
  case (Cons m ms)
  define s' where
    "s' = (if name m = me
           then s\<lparr>sub_position := Some pos, sub_is_active := Some (is_active m)\<rparr> else s)"
  define step where
    "step = (\<lambda>w::walk.
       let w = w\<lparr>entire_sub_inactive := (entire_sub_inactive w \<and> \<not> is_active m)\<rparr>;
           moderator = m\<lparr>position := Some pos\<rparr>;
           w = (if name moderator = me then
                  w\<lparr>my_position := Some pos,
                    im_active := is_active moderator,
                    current := (current w)\<lparr>sub_position := Some pos,
                                           sub_is_active := Some (is_active moderator)\<rparr>\<rparr>
                else w)
       in (if my_position w = None then w\<lparr>above_me := above_me w @ [moderator]\<rparr>
           else w\<lparr>below_me := below_me w @ [moderator]\<rparr>))"
  have unf: "for_moderators me pos (m # ms) x = for_moderators me (Suc pos) ms (step x)" for x
    by (simp add: step_def Let_def)
  have st: "step (w\<lparr>current := s\<rparr>) = (step w)\<lparr>current := s'\<rparr>"
    by (simp add: step_def s'_def Let_def)
  show ?case
    unfolding unf st Cons.IH by (simp add: s'_def)
qed


lemma walk_idem:
  "for_moderators me pos ms
     (w\<lparr>current := current (for_moderators me pos ms w)\<rparr>) = for_moderators me pos ms w"
proof -
  have self: "for_moderators me pos ms w =
      (for_moderators me pos ms w)\<lparr>current := stamp me pos ms (current w)\<rparr>"
    using walk_current [where me = me and pos = pos and ms = ms and w = w and s = "current w"]
    by simp
  then have c: "current (for_moderators me pos ms w) = stamp me pos ms (current w)"
    by (metis walk.select_convs(6) walk.surjective walk.update_convs(6))
  have "for_moderators me pos ms (w\<lparr>current := stamp me pos ms (current w)\<rparr>) =
      (for_moderators me pos ms w)\<lparr>current := stamp me pos ms (stamp me pos ms (current w))\<rparr>"
    by (rule walk_current)
  also have "\<dots> = (for_moderators me pos ms w)\<lparr>current := stamp me pos ms (current w)\<rparr>"
    by (simp only: stamp_idem)
  also have "\<dots> = for_moderators me pos ms w"
    using self by simp
  finally show ?thesis by (simp only: c)
qed

lemma walk_display_name:
  "display_name (current (for_moderators me pos ms w)) = display_name (current w)"
proof -
  have "for_moderators me pos ms w =
      (for_moderators me pos ms w)\<lparr>current := stamp me pos ms (current w)\<rparr>"
    using walk_current [where me = me and pos = pos and ms = ms and w = w and s = "current w"]
    by simp
  then have "current (for_moderators me pos ms w) = stamp me pos ms (current w)"
    by (metis walk.select_convs(6) walk.surjective walk.update_convs(6))
  then show ?thesis by (simp add: stamp_display_name)
qed

lemma scan_subreddit_fst:
  "fst (scan_subreddit me moderators sub R) =
     current (for_moderators me 1 (fst (moderators (display_name sub))) (init_walk sub))"
  by (simp add: scan_subreddit_def Let_def init_walk_def split: option.splits)

lemma scan_subreddit_display_name:
  "display_name (fst (scan_subreddit me moderators sub R)) = display_name sub"
  by (simp add: scan_subreddit_fst walk_display_name init_walk_def)

lemma scan_subreddit_appends: "appends (\<lambda>R. snd (scan_subreddit me moderators sub R))"
proof (cases "snd (moderators (display_name sub))")
  case None
  then show ?thesis
    using appends_classify by (simp add: scan_subreddit_def Let_def)
next
  case (Some e)
  then show ?thesis
    using appends_id by (simp add: scan_subreddit_def Let_def)
qed

lemma scan_subreddit_again:
  "scan_subreddit me moderators (fst (scan_subreddit me moderators sub R0)) R =
     (fst (scan_subreddit me moderators sub R0), snd (scan_subreddit me moderators sub R))"
proof -
  let ?ms = "fst (moderators (display_name sub))"
  let ?w = "for_moderators me 1 ?ms (init_walk sub)"
  have s1: "fst (scan_subreddit me moderators sub R0) = current ?w"
    by (rule scan_subreddit_fst)
  have dn: "display_name (current ?w) = display_name sub"
    by (simp add: walk_display_name init_walk_def)
  have "init_walk (current ?w) = (init_walk sub)\<lparr>current := current ?w\<rparr>"
    by (simp add: init_walk_def)
  then have w: "for_moderators me 1 ?ms (init_walk (current ?w)) = ?w"
    by (simp add: walk_idem)
  have "scan_subreddit me moderators (current ?w) R =
      (case snd (moderators (display_name sub)) of
         Some e \<Rightarrow> (current ?w, R) | None \<Rightarrow> (current ?w, classify ?w R))"
    unfolding scan_subreddit_def Let_def dn init_walk_def [symmetric] w ..
  moreover have "snd (scan_subreddit me moderators sub R) =
      (case snd (moderators (display_name sub)) of Some e \<Rightarrow> R | None \<Rightarrow> classify ?w R)"
    unfolding scan_subreddit_def Let_def init_walk_def [symmetric]
    by (simp split: option.splits)
  ultimately show ?thesis
    unfolding s1 by (simp split: option.splits)
qed

lemma inactivity_scan_Cons:
  "inactivity_scan me moderators (sub # subs) R =
     (fst (scan_subreddit me moderators sub R) #
        fst (inactivity_scan me moderators subs (snd (scan_subreddit me moderators sub R))),
      snd (inactivity_scan me moderators subs (snd (scan_subreddit me moderators sub R))))"
  by (simp split: prod.splits)

lemma inactivity_scan_appends: "appends (\<lambda>R. snd (inactivity_scan me moderators subs R))"
proof (induction subs)
  case Nil
  then show ?case by (simp add: appends_id)
next
  case (Cons sub subs)
  show ?case
    unfolding inactivity_scan_Cons snd_conv
    by (rule appends_comp [OF scan_subreddit_appends Cons.IH])
qed

lemma inactivity_scan_again:
  "inactivity_scan me moderators (fst (inactivity_scan me moderators subs R0)) R =
     (fst (inactivity_scan me moderators subs R0), snd (inactivity_scan me moderators subs R))"
proof (induction subs arbitrary: R0 R)
  case Nil
  then show ?case by simp
next
  case (Cons sub subs)
  show ?case
    unfolding inactivity_scan_Cons fst_conv snd_conv scan_subreddit_again Cons.IH ..
qed

subsection \<open>The example inputs\<close>

lemma ex_simps:
  "matches (check_removed_by_automated_spam plain) spam_item"
  "matches (check_removed_by_automated_spam plain) approved_item"
  "qualifier (check_removed_by_automated_spam plain) = Q_ANY"
  "qualifier (check_score plain n) = Q_ALL"
  "matches (check_score plain 10) spam_item"
  "matches (check_score plain 10) approved_item"
  "reason (check_removed_by_automated_spam plain) spam_item = ''automated system marked it as spam''"
  "truthy (approved_by approved_item)"
  "\<not> truthy (approved_by spam_item)"
  by (simp_all add: matches_def reason_def check_removed_by_automated_spam_def check_score_def
      spam_item_def approved_item_def plain_def Let_def)

lemma str_int_5: "str_int 5 = ''5''" "str_int 10 = ''10''"
  by (simp_all add: str_int_def str_nat.simps digit_def)

lemma reason_score: "reason (check_score plain 10) spam_item = ''5 < 10''"
  by (simp add: reason_def check_score_def spam_item_def plain_def Let_def str_int_5)

lemma example_scanners:
  "checks (modqueue_cli its fail reapp) =
     [check_score plain 10, check_removed_by_automated_spam plain]"
  "checks (modqueue_score its fail reapp) = [check_score plain 10]"
  "checks (modqueue_no_checks its fail reapp) = []"
  "listing (modqueue_cli its fail reapp) = (its, fail)"
  "listing (modqueue_score its fail reapp) = (its, fail)"
  "listing (modqueue_no_checks its fail reapp) = (its, fail)"
  "reapprove (modqueue_cli its fail reapp) = reapp"
  "reapprove (modqueue_score its fail reapp) = reapp"
  "reapprove (modqueue_no_checks its fail reapp) = reapp"
  "items_to_remove (modqueue_cli its fail reapp) = []"
  "items_to_remove (modqueue_score its fail reapp) = []"
  "items_to_remove (modqueue_no_checks its fail reapp) = []"
  "items_to_reapprove (modqueue_cli its fail reapp) = []"
  "items_to_reapprove (modqueue_score its fail reapp) = []"
  "items_to_reapprove (modqueue_no_checks its fail reapp) = []"
  "issued (modqueue_cli its fail reapp) = []"
  "issued (modqueue_score its fail reapp) = []"
  "issued (modqueue_no_checks its fail reapp) = []"
  "logged (modqueue_cli its fail reapp) = []"
  by (simp_all add: modqueue_cli_def modqueue_score_def modqueue_no_checks_def Modqueue_def)

subsection \<open>The claims about the item-queue scanner\<close>

text \<open>
  Claim C1, as the code has it. For an item that the guard for previously approved items
  does not take (re-approval is off, or the item bears no prior approval), a rule set
  with a matching \<open>ANY\<close> check makes the verdict true whatever the other checks say, the
  item ends in the remove bucket of the scan, and the checks called are exactly those up
  to and including the first matching \<open>ANY\<close> check: none declared after it is called.
\<close>

theorem any_match_routes_to_remove:
  assumes "\<not> (reapprove m \<and> truthy (approved_by item))"
    and "c \<in> set (checks m)" and "qualifier c = Q_ANY" and "matches c item"
    and "item \<in> set (fst (listing m))"
  shows "\<exists>pre d post. checks m = pre @ d # post \<and> qualifier d = Q_ANY \<and> matches d item \<and>
           list_all (\<lambda>x. \<not> (qualifier x = Q_ANY \<and> matches x item)) pre \<and>
           invoked (evaluate m item) = pre @ [d] \<and>
           remove (evaluate m item) \<and>
           item \<in> set (items_to_remove (snd (scan m)))"
proof -
  from assms(2-4) have "\<exists>x\<in>set (checks m). qualifier x = Q_ANY \<and> matches x item" by blast
  then obtain pre d post where split: "checks m = pre @ d # post"
    and d: "qualifier d = Q_ANY" "matches d item"
    and first: "\<forall>y\<in>set pre. \<not> (qualifier y = Q_ANY \<and> matches y item)"
    using split_list_first_prop [of "checks m" "\<lambda>x. qualifier x = Q_ANY \<and> matches x item"]
    by blast
  from first have pre: "list_all (\<lambda>x. \<not> (qualifier x = Q_ANY \<and> matches x item)) pre"
    by (simp add: list_all_iff)
  note ev = evaluate_any [OF assms(1) split pre d]
  have rm: "remove (evaluate m item)" and inv: "invoked (evaluate m item) = pre @ [d]"
    by (simp_all add: ev)
  have "item \<in> set (items_to_remove (snd (scan m)))"
    using assms(5) rm by (simp add: scan_buckets)
  with split d pre rm inv show ?thesis
    by (intro exI [of _ pre] exI [of _ d] exI [of _ post]) simp
qed

theorem any_match_routes_to_remove_witness:
  "spam_item \<in> set (items_to_remove (snd (scan (modqueue_cli [spam_item] None True)))) \<and>
   invoked (evaluate (modqueue_cli [spam_item] None True) spam_item) =
     [check_score plain 10, check_removed_by_automated_spam plain]"
  using any_match_routes_to_remove [of "modqueue_cli [spam_item] None True" spam_item
      "check_removed_by_automated_spam plain"]
  by (auto simp add: example_scanners ex_simps Cons_eq_append_conv)

text \<open>
  The claim as stated fails for an item that bears a prior approval when re-approval is
  on: the spam check is an \<open>ANY\<close> check that matches it, yet the item goes to the
  re-approve bucket, not to the remove bucket, and no check is called.
\<close>

theorem any_match_routes_to_remove_counterexample:
  "check_removed_by_automated_spam plain \<in> set (checks (modqueue_cli [approved_item] None True)) \<and>
   qualifier (check_removed_by_automated_spam plain) = Q_ANY \<and>
   matches (check_removed_by_automated_spam plain) approved_item \<and>
   approved_item \<in> set (fst (listing (modqueue_cli [approved_item] None True))) \<and>
   approved_item \<notin> set (items_to_remove (snd (scan (modqueue_cli [approved_item] None True)))) \<and>
   items_to_reapprove (snd (scan (modqueue_cli [approved_item] None True))) = [approved_item] \<and>
   invoked (evaluate (modqueue_cli [approved_item] None True) approved_item) = []"
  by (simp add: scan_buckets ex_simps evaluate_def example_scanners)

text \<open>
  Claim C2, as the code has it. For a rule set whose checks all have qualifier \<open>ALL\<close> and
  an item that the guard for previously approved items does not take (re-approval is
  off, or the item bears no prior approval), whatever else the listing holds: every check
  is called, the verdict is the conjunction of the verdicts of the checks, the loop body
  adds the item to the remove bucket exactly when every check matches it, and after the
  scan the item is in the remove bucket exactly when it was there before or the listing
  yields it and every check matches it. With no check at all the verdict is true and the
  item is added.
\<close>

theorem all_checks_verdict_is_conjunction:
  assumes "list_all (\<lambda>c. qualifier c = Q_ALL) (checks m)"
    and "\<not> (reapprove m \<and> truthy (approved_by item))"
  shows "remove (evaluate m item) = list_all (\<lambda>c. matches c item) (checks m) \<and>
         invoked (evaluate m item) = checks m \<and>
         items_to_remove (scan_item m item) =
           items_to_remove m @ (if list_all (\<lambda>c. matches c item) (checks m) then [item] else []) \<and>
         (item \<in> set (items_to_remove (snd (scan m)))) =
           (item \<in> set (items_to_remove m) \<or>
            item \<in> set (fst (listing m)) \<and> list_all (\<lambda>c. matches c item) (checks m)) \<and>
         (if checks m = []
          then remove (evaluate m item) \<and>
               items_to_remove (scan_item m item) = items_to_remove m @ [item]
          else True)"
proof -
  note ev = evaluate_all [OF assms(2) assms(1)]
  have verdict: "remove (evaluate m item) = list_all (\<lambda>c. matches c item) (checks m)"
    and called: "invoked (evaluate m item) = checks m"
    by (simp_all add: ev)
  have body: "items_to_remove (scan_item m item) =
      items_to_remove m @ (if list_all (\<lambda>c. matches c item) (checks m) then [item] else [])"
    by (simp add: scan_item_remove verdict)
  have bucket: "(item \<in> set (items_to_remove (snd (scan m)))) =
      (item \<in> set (items_to_remove m) \<or>
       item \<in> set (fst (listing m)) \<and> list_all (\<lambda>c. matches c item) (checks m))"
    by (auto simp add: scan_buckets verdict)
  from verdict called body bucket show ?thesis by simp
qed

text \<open>
  The theorem at a listing that mixes an item without prior approval and a previously
  approved one, with re-approval on.
\<close>

theorem all_checks_verdict_is_conjunction_witness:
  "list_all (\<lambda>c. qualifier c = Q_ALL)
     (checks (modqueue_score [spam_item, approved_item] None True)) \<and>
   \<not> (reapprove (modqueue_score [spam_item, approved_item] None True) \<and>
      truthy (approved_by spam_item)) \<and>
   remove (evaluate (modqueue_score [spam_item, approved_item] None True) spam_item) \<and>
   spam_item \<in> set (items_to_remove
     (snd (scan (modqueue_score [spam_item, approved_item] None True))))"
  using all_checks_verdict_is_conjunction
    [of "modqueue_score [spam_item, approved_item] None True" spam_item]
  by (simp add: example_scanners ex_simps)

text \<open>
  Over a whole listing none of whose items the guard takes, the scan adds exactly the
  items every check matches, and with no check it adds every item.
\<close>

lemma all_checks_scan_bucket:
  assumes "list_all (\<lambda>c. qualifier c = Q_ALL) (checks m)"
    and "list_all (\<lambda>i. \<not> (reapprove m \<and> truthy (approved_by i))) (fst (listing m))"
  shows "items_to_remove (snd (scan m)) =
           items_to_remove m @
             filter (\<lambda>i. list_all (\<lambda>c. matches c i) (checks m)) (fst (listing m))"
proof -
  have "remove (evaluate m i) = list_all (\<lambda>c. matches c i) (checks m)"
    if "i \<in> set (fst (listing m))" for i
    using that assms(2) evaluate_all [OF _ assms(1), of i] by (simp add: list_all_iff)
  then have "filter (\<lambda>i. remove (evaluate m i)) (fst (listing m)) =
        filter (\<lambda>i. list_all (\<lambda>c. matches c i) (checks m)) (fst (listing m))"
    by (auto intro: filter_cong)
  then show ?thesis by (simp add: scan_buckets)
qed

text \<open>
  The claim as stated fails for an item that bears a prior approval when re-approval is
  on: the only check is an \<open>ALL\<close> check that matches, and the verdict is false.
\<close>

theorem all_checks_verdict_is_conjunction_counterexample:
  "list_all (\<lambda>c. qualifier c = Q_ALL) (checks (modqueue_score [approved_item] None True)) \<and>
   list_all (\<lambda>c. matches c approved_item) (checks (modqueue_score [approved_item] None True)) \<and>
   \<not> remove (evaluate (modqueue_score [approved_item] None True) approved_item) \<and>
   approved_item \<notin> set (items_to_remove (snd (scan (modqueue_score [approved_item] None True))))"
  by (simp add: scan_buckets ex_simps evaluate_def example_scanners)

text \<open>
  Claim C3 at its failing input. With an empty rule set the guard for previously approved
  items, which sits inside the loop over the checks, is never reached: an item that
  bears a prior approval goes to the remove bucket although re-approval is on, the
  re-approve bucket stays empty, and \<^verbatim>\<open>remove_found\<close> then removes and locks the item.
\<close>

theorem approved_item_without_checks_is_removed:
  "fst (scan (modqueue_no_checks [approved_item] None True)) = Inr (1, 0) \<and>
   items_to_remove (snd (scan (modqueue_no_checks [approved_item] None True))) = [approved_item] \<and>
   items_to_reapprove (snd (scan (modqueue_no_checks [approved_item] None True))) = [] \<and>
   issued (snd (remove_found (\<lambda>a. None) (snd (scan (modqueue_no_checks [approved_item] None True))))) =
     [Remove approved_item, Lock approved_item]"
  by (simp add: scan_result scan_buckets ex_simps evaluate_def example_scanners
      remove_found_def remove_loop_issued)

text \<open>
  With at least one check the guard works as the claim says: no check is called, the
  item joins the re-approve bucket only, and \<^verbatim>\<open>reapprove_found\<close> issues approve actions
  only, whatever the platform answers.
\<close>

lemma approved_item_bypasses_checks:
  assumes "reapprove m" and "truthy (approved_by item)" and "checks m \<noteq> []"
  shows "invoked (evaluate m item) = [] \<and>
         items_to_reapprove (scan_item m item) = items_to_reapprove m @ [item] \<and>
         items_to_remove (scan_item m item) = items_to_remove m"
  using assms fc_bypass [of "\<lparr>remove = True, messages = [], invoked = [], mq = m\<rparr>" item "checks m"]
  by (simp add: scan_item_def evaluate_def Let_def)

text \<open>
  Claim C8, as the code has it. When an \<open>ANY\<close> check matches, the message recorded for the
  item joins, with \<open>'' | ''\<close>, the reasons of all checks that matched up to and including
  that check, in the order of the rule set: the reasons of earlier matching checks come
  first and the reason of the \<open>ANY\<close> check comes last.
\<close>

theorem any_match_recorded_message:
  assumes "\<not> (reapprove m \<and> truthy (approved_by item))"
    and "checks m = pre @ c # post"
    and "list_all (\<lambda>x. \<not> (qualifier x = Q_ANY \<and> matches x item)) pre"
    and "qualifier c = Q_ANY" and "matches c item"
  shows "messages (evaluate m item) =
           map (\<lambda>x. reason x item) (filter (\<lambda>x. matches x item) pre) @ [reason c item] \<and>
         logged (scan_item m item) =
           logged m @
             [(Info, join '' | ''
                 (map (\<lambda>x. reason x item) (filter (\<lambda>x. matches x item) pre) @ [reason c item]),
               Some item)]"
  using evaluate_any [OF assms] by (simp add: scan_item_def Let_def)

theorem any_match_recorded_message_witness:
  "logged (scan_item (modqueue_cli [spam_item] None False) spam_item) =
     [(Info, ''5 < 10 | automated system marked it as spam'', Some spam_item)]"
  using any_match_recorded_message [of "modqueue_cli [spam_item] None False" spam_item
      "[check_score plain 10]" "check_removed_by_automated_spam plain" "[]"]
  by (simp add: example_scanners ex_simps reason_score)

text \<open>
  The claim as stated fails when a check before the \<open>ANY\<close> check matches too: the reason
  of the score check is recorded together with the reason of the spam check.
\<close>

theorem any_match_recorded_message_counterexample:
  "qualifier (check_removed_by_automated_spam plain) = Q_ANY \<and>
   matches (check_removed_by_automated_spam plain) spam_item \<and>
   messages (evaluate (modqueue_cli [spam_item] None False) spam_item) =
     [''5 < 10'', ''automated system marked it as spam''] \<and>
   messages (evaluate (modqueue_cli [spam_item] None False) spam_item) \<noteq>
     [reason (check_removed_by_automated_spam plain) spam_item]"
  using evaluate_any [of "modqueue_cli [spam_item] None False" spam_item
      "[check_score plain 10]" "check_removed_by_automated_spam plain" "[]"]
  by (simp add: example_scanners ex_simps reason_score)

text \<open>
  Claim C10. When the listing raises after it has yielded some items, the scan returns
  \<open>(0, 0)\<close>, yet both buckets keep every item classified before the failure (they are
  not reset to their state before the scan), and \<^verbatim>\<open>remove_found\<close> and
  \<^verbatim>\<open>reapprove_found\<close> called afterwards issue their actions for those items.
\<close>

theorem failed_scan_keeps_buckets:
  assumes "snd (listing m) = Some e"
  shows "fst (scan m) = Inr (0, 0) \<and>
         items_to_remove (snd (scan m)) =
           items_to_remove m @ filter (\<lambda>i. remove (evaluate m i)) (fst (listing m)) \<and>
         items_to_reapprove (snd (scan m)) =
           items_to_reapprove m @
             filter (\<lambda>i. reapprove m \<and> truthy (approved_by i) \<and> checks m \<noteq> [])
               (fst (listing m)) \<and>
         issued (snd (remove_found (\<lambda>a. None) (snd (scan m)))) =
           issued m @ concat (map (\<lambda>i. [Remove i, Lock i]) (items_to_remove (snd (scan m)))) \<and>
         issued (snd (reapprove_found (\<lambda>a. None) (snd (scan m)))) =
           issued m @ map Approve (items_to_reapprove (snd (scan m)))"
  using assms scan_result [of m]
  by (simp add: scan_buckets remove_found_def reapprove_found_def remove_loop_issued
      reapprove_loop_issued)

theorem failed_scan_keeps_buckets_witness:
  "snd (listing (modqueue_cli [spam_item] (Some Forbidden) False)) = Some Forbidden \<and>
   fst (scan (modqueue_cli [spam_item] (Some Forbidden) False)) = Inr (0, 0) \<and>
   items_to_remove (snd (scan (modqueue_cli [spam_item] (Some Forbidden) False))) = [spam_item] \<and>
   issued (snd (remove_found (\<lambda>a. None)
     (snd (scan (modqueue_cli [spam_item] (Some Forbidden) False))))) =
     [Remove spam_item, Lock spam_item]"
  using failed_scan_keeps_buckets [of "modqueue_cli [spam_item] (Some Forbidden) False" Forbidden]
    evaluate_any [of "modqueue_cli [spam_item] (Some Forbidden) False" spam_item
      "[check_score plain 10]" "check_removed_by_automated_spam plain" "[]"]
  by (simp add: example_scanners ex_simps)

text \<open>
  The item-queue half of claim C6: \<^verbatim>\<open>Modqueue.scan\<close> never raises, and when the listing
  raises it returns \<open>(0, 0)\<close> and its last log record reports the failure.
\<close>

lemma modqueue_scan_never_raises:
  "\<exists>counts. fst (scan m) = Inr counts"
  by (simp add: scan_def scan_try_def Let_def for_items_frame split: option.splits error.splits)

lemma modqueue_scan_logs_failure:
  assumes "snd (listing m) = Some e"
  shows "fst (scan m) = Inr (0, 0) \<and>
         (\<exists>text. last (logged (snd (scan m))) =
            ((if e = Forbidden then Error else Exception), text, None))"
  using assms by (cases e) (simp_all add: scan_def scan_try_def Let_def for_items_frame)

subsection \<open>The claims about the conversation scanner\<close>

lemma pulled_archive:
  "items_to_archive (snd (modmail_scan (Modmail lst cs sts))) =
     {c \<in> set (pulled lst sts). \<not> list_ex (\<lambda>k. matches k c) cs}"
  by (simp add: modmail_scan_archive scan_checks_None Modmail_def)

lemma modmail_scan_result:
  "fst (modmail_scan m) = Inr (card (items_to_archive (snd (modmail_scan m)))) \<or>
   (\<exists>e. fst (modmail_scan m) = Inl e)"
  by (auto simp add: modmail_scan_def Let_def split: prod.splits option.splits)

text \<open>
  Claim C4. A fresh conversation scanner adds a conversation it pulls, under whatever
  state, to the archive collection if and only if no check of the rule set matches it.
  The collection is a set: it holds the distinct unmatched conversations pulled, so a
  conversation met under several states counts once, and the number the scan returns is
  the number of distinct ones.
\<close>

theorem archive_iff_no_check_matched:
  assumes "conv \<in> set (pulled lst sts)"
  shows "(conv \<in> items_to_archive (snd (modmail_scan (Modmail lst cs sts)))) =
           (\<not> list_ex (\<lambda>k. matches k conv) cs) \<and>
         items_to_archive (snd (modmail_scan (Modmail lst cs sts))) =
           {c \<in> set (pulled lst sts). \<not> list_ex (\<lambda>k. matches k c) cs} \<and>
         card (items_to_archive (snd (modmail_scan (Modmail lst cs sts)))) =
           length (remdups (filter (\<lambda>c. \<not> list_ex (\<lambda>k. matches k c) cs) (pulled lst sts))) \<and>
         (fst (modmail_scan (Modmail lst cs sts)) =
            Inr (card (items_to_archive (snd (modmail_scan (Modmail lst cs sts))))) \<or>
          (\<exists>e. fst (modmail_scan (Modmail lst cs sts)) = Inl e))"
proof -
  let ?A = "items_to_archive (snd (modmail_scan (Modmail lst cs sts)))"
  let ?keep = "\<lambda>c. \<not> list_ex (\<lambda>k. matches k c) cs"
  have A: "?A = {c \<in> set (pulled lst sts). ?keep c}" by (rule pulled_archive)
  then have mem: "(conv \<in> ?A) = ?keep conv" using assms by simp
  have "?A = set (filter ?keep (pulled lst sts))" using A by simp
  then have "card ?A = length (remdups (filter ?keep (pulled lst sts)))"
    by (simp add: length_remdups_card_conv)
  with A mem modmail_scan_result [of "Modmail lst cs sts"] show ?thesis by simp
qed

theorem archive_iff_no_check_matched_witness:
  "answered_conversation \<in> set (pulled same_listing [''new'', ''archived'']) \<and>
   answered_conversation \<in> items_to_archive (snd (modmail_scan
      (Modmail same_listing [check_unanswered plain False] [''new'', ''archived'']))) \<and>
   unanswered_conversation \<notin> items_to_archive (snd (modmail_scan
      (Modmail same_listing [check_unanswered plain False] [''new'', ''archived'']))) \<and>
   card (items_to_archive (snd (modmail_scan
      (Modmail same_listing [check_unanswered plain False] [''new'', ''archived''])))) = 1 \<and>
   length (pulled same_listing [''new'', ''archived'']) = 4"
  using archive_iff_no_check_matched [of answered_conversation same_listing
      "[''new'', ''archived'']" "[check_unanswered plain False]"]
    archive_iff_no_check_matched [of unanswered_conversation same_listing
      "[''new'', ''archived'']" "[check_unanswered plain False]"]
  by (simp add: same_listing_def matches_def check_unanswered_def answered_conversation_def
      unanswered_conversation_def Let_def)

text \<open>
  Claim C9, as the code has it. \<^verbatim>\<open>check_unanswered\<close> reads the last moderator update,
  not the last user update: for every conversation with no last-mod-update, when
  \<^verbatim>\<open>ignore_unanswered\<close> is false, the check matches with the reason \<open>unanswered\<close> in red,
  and a scanner whose rule set holds the check does not archive the conversation.
\<close>

theorem unanswered_conversation_is_kept:
  assumes "last_mod_update conv = None" and "check_unanswered style False \<in> set cs"
  shows "func (check_unanswered style False) conv = (True, style ''unanswered'' ''red'') \<and>
         conv \<notin> items_to_archive (snd (modmail_scan (Modmail lst cs sts)))"
proof -
  have f: "func (check_unanswered style False) conv = (True, style ''unanswered'' ''red'')"
    using assms(1) by (simp add: check_unanswered_def Let_def)
  then have "matches (check_unanswered style False) conv" by (simp add: matches_def)
  with assms(2) have "list_ex (\<lambda>k. matches k conv) cs" by (auto simp add: list_ex_iff)
  then have "conv \<notin> items_to_archive (snd (modmail_scan (Modmail lst cs sts)))"
    by (simp add: pulled_archive)
  with f show ?thesis by simp
qed

theorem unanswered_conversation_is_kept_witness:
  "last_mod_update unanswered_conversation = None \<and>
   func (check_unanswered plain False) unanswered_conversation = (True, ''unanswered'') \<and>
   unanswered_conversation \<notin> items_to_archive (snd (modmail_scan
      (Modmail same_listing [check_unanswered plain False] [''new''])))"
  using unanswered_conversation_is_kept [of unanswered_conversation plain
      "[check_unanswered plain False]" same_listing "[''new'']"]
  by (simp add: unanswered_conversation_def plain_def)

text \<open>
  The claim as stated fails: a conversation with no last-user-update that a moderator has
  updated is not matched by the check, and the scanner archives it.
\<close>

theorem unanswered_conversation_is_kept_counterexample:
  "last_user_update answered_conversation = None \<and>
   func (check_unanswered plain False) answered_conversation = (False, []) \<and>
   answered_conversation \<in> items_to_archive (snd (modmail_scan
      (Modmail same_listing [check_unanswered plain False] [''new''])))"
  by (simp add: pulled_archive same_listing_def matches_def check_unanswered_def
      answered_conversation_def Let_def)

text \<open>
  Claim C6 at its failing input. \<^verbatim>\<open>Modmail.scan\<close> has no handler: when the listing is
  denied, the exception reaches the caller and nothing is logged, where
  \<^verbatim>\<open>Modqueue.scan\<close> logs the failure and returns zero counts
  (\<open>modqueue_scan_never_raises\<close>, \<open>modqueue_scan_logs_failure\<close>).
\<close>

theorem modmail_scan_raises:
  "fst (modmail_scan (Modmail forbidden_listing cs [''all''])) = Inl Forbidden \<and>
   mm_logged (snd (modmail_scan (Modmail forbidden_listing cs [''all'']))) = []"
  by (simp add: modmail_scan_def Modmail_def forbidden_listing_def Let_def)

text \<open>In general the scan raises what the first failing listing raises.\<close>

lemma modmail_scan_raises_first_failure:
  "fst (modmail_scan m) = Inl e \<longleftrightarrow>
     (case List.find (\<lambda>st. snd (mm_listing m st) \<noteq> None) (states m) of
        None \<Rightarrow> False | Some st \<Rightarrow> snd (mm_listing m st) = Some e)"
  using for_states_raises [of "states m" "\<lparr>aggregated = [], mm = m\<rparr>"]
  by (auto simp add: modmail_scan_def Let_def split: prod.splits option.splits)

subsection \<open>The claims about the activity ladder classifier\<close>





text \<open>The scan of one subreddit whose roster is the active self subject alone.\<close>

lemma lone_self_scan:
  assumes "moderators (display_name sub) = ([\<lparr>name = me, is_active = True, position = p\<rparr>], None)"
  shows "fst (inactivity_scan me moderators [sub] InactivityManager) =
           [sub\<lparr>sub_position := Some 1, sub_is_active := Some True\<rparr>] \<and>
         bucket (snd (inactivity_scan me moderators [sub] InactivityManager) b) =
           (if b = All_subreddits \<or> b = Active_top_mod \<or> b = Top_active_mod
            then [(sub\<lparr>sub_position := Some 1, sub_is_active := Some True\<rparr>, [])] else [])"
proof -
  let ?sub = "sub\<lparr>sub_position := Some 1, sub_is_active := Some True\<rparr>"
  let ?w = "\<lparr>entire_sub_inactive = False, above_me = [],
            below_me = [\<lparr>name = me, is_active = True, position = Some 1\<rparr>],
            my_position = Some 1, im_active = True, current = ?sub\<rparr>"
  have s: "scan_subreddit me moderators sub R = (?sub, classify ?w R)" for R
    by (simp add: scan_subreddit_def assms Let_def)
  have b: "bucket (classify ?w InactivityManager b) =
      (if b = All_subreddits \<or> b = Active_top_mod \<or> b = Top_active_mod
       then [(?sub, [])] else [])"
    by (cases b)
       (simp_all add: classify_def ladder_def Let_def if_fire_def fire_def call_def
          init_bucket contain_inactive_def contain_all_inactive_def contain_active_def)
  show ?thesis
    by (simp del: One_nat_def add: s b)
qed




text \<open>
  Claim C7, as the code has it. The buckets are class attributes and are never reset:
  a second scan over unchanged rosters leaves the subreddit objects as the first scan
  left them and appends to every bucket the entries the first scan appended. Starting
  from the empty class-level buckets, every bucket then holds its first-run entries
  twice in a row, so it has the same distinct entries and twice as many of them. The
  same holds when the second scan is handed fresh subreddit objects.
\<close>

theorem second_scan_appends_again:
  "fst (inactivity_scan me moderators
          (fst (inactivity_scan me moderators subs InactivityManager))
          (snd (inactivity_scan me moderators subs InactivityManager))) =
     fst (inactivity_scan me moderators subs InactivityManager) \<and>
   bucket (snd (inactivity_scan me moderators
          (fst (inactivity_scan me moderators subs InactivityManager))
          (snd (inactivity_scan me moderators subs InactivityManager))) b) =
     bucket (snd (inactivity_scan me moderators subs InactivityManager) b) @
     bucket (snd (inactivity_scan me moderators subs InactivityManager) b) \<and>
   set (bucket (snd (inactivity_scan me moderators
          (fst (inactivity_scan me moderators subs InactivityManager))
          (snd (inactivity_scan me moderators subs InactivityManager))) b)) =
     set (bucket (snd (inactivity_scan me moderators subs InactivityManager) b)) \<and>
   length (bucket (snd (inactivity_scan me moderators
          (fst (inactivity_scan me moderators subs InactivityManager))
          (snd (inactivity_scan me moderators subs InactivityManager))) b)) =
     2 * length (bucket (snd (inactivity_scan me moderators subs InactivityManager) b)) \<and>
   bucket (snd (inactivity_scan me moderators subs
          (snd (inactivity_scan me moderators subs InactivityManager))) b) =
     bucket (snd (inactivity_scan me moderators subs InactivityManager) b) @
     bucket (snd (inactivity_scan me moderators subs InactivityManager) b)"
proof -
  let ?R1 = "snd (inactivity_scan me moderators subs InactivityManager)"
  let ?subs1 = "fst (inactivity_scan me moderators subs InactivityManager)"
  have fresh: "bucket (snd (inactivity_scan me moderators subs ?R1) b) =
      bucket (?R1 b) @ bucket (?R1 b)"
    by (rule appends_from_init [OF inactivity_scan_appends])
  have again: "inactivity_scan me moderators ?subs1 ?R1 =
      (?subs1, snd (inactivity_scan me moderators subs ?R1))"
    by (rule inactivity_scan_again)
  show ?thesis
    unfolding again fst_conv snd_conv fresh by simp
qed

theorem second_scan_appends_again_witness:
  "map (\<lambda>b. length (bucket (snd (inactivity_scan ''me'' lone_roster
          (fst (inactivity_scan ''me'' lone_roster [example_subreddit] InactivityManager))
          (snd (inactivity_scan ''me'' lone_roster [example_subreddit] InactivityManager))) b)))
     [All_subreddits, Active_top_mod, No_active_mods] = [2, 2, 0]"
  using second_scan_appends_again [of "''me''" lone_roster "[example_subreddit]"]
    lone_self_scan [where moderators = lone_roster and sub = example_subreddit and me = "''me''"
      and p = None]
  by (simp add: lone_roster_def)

text \<open>
  The claim as stated fails as soon as the first scan files a subreddit: the
  all-subreddits bucket has one entry after the first scan and two after the second.
\<close>

theorem second_scan_appends_again_counterexample:
  "bucket (snd (inactivity_scan ''me'' lone_roster
          (fst (inactivity_scan ''me'' lone_roster [example_subreddit] InactivityManager))
          (snd (inactivity_scan ''me'' lone_roster [example_subreddit] InactivityManager)))
      All_subreddits) \<noteq>
   bucket (snd (inactivity_scan ''me'' lone_roster [example_subreddit] InactivityManager)
      All_subreddits)"
  using inactivity_scan_again [of "''me''" lone_roster "[example_subreddit]" InactivityManager
      "snd (inactivity_scan ''me'' lone_roster [example_subreddit] InactivityManager)"]
    appends_from_init [OF inactivity_scan_appends, of "''me''" lone_roster "[example_subreddit]"
      "snd (inactivity_scan ''me'' lone_roster [example_subreddit] InactivityManager)"
      All_subreddits]
    lone_self_scan [where moderators = lone_roster and sub = example_subreddit and me = "''me''"
      and p = None and b = All_subreddits]
  by (simp add: lone_roster_def)

end
